theory Spec2Isabelle
  imports Complex_Main
begin

section \<open>JavaScript numbers\<close>

text \<open>
  Every number of \<^verbatim>\<open>www/index.js\<close> is a JavaScript Number, an IEEE 754 double.
  A finite double is the rational it denotes; the three other values are the
  infinities and NaN. The two zeros are not told apart: the zero of this model
  is \<open>+0\<close>, which is the zero the program divides by (\<open>now - lastFrameTimeStamp\<close>
  of two equal clock readings is \<open>+0\<close>).
\<close>

datatype jsnum = Num rat | PosInf | NegInf | NaN

text \<open>\<open>blen n\<close> is the number of binary digits of \<open>n\<close>.\<close>

fun blen :: "nat \<Rightarrow> nat" where
  "blen n = (if n = 0 then 0 else Suc (blen (n div 2)))"

declare blen.simps [simp del]

text \<open>For \<open>0 < a\<close>, \<open>binade a\<close> is the exponent \<open>e\<close> with \<open>2^e \<le> a < 2^(e+1)\<close>.\<close>

definition binade :: "rat \<Rightarrow> int" where
  "binade a = (if 1 \<le> a then int (blen (nat \<lfloor>a\<rfloor>)) - 1
               else - int (blen (nat (\<lceil>1 / a\<rceil> - 1))))"

text \<open>Rounding to the nearest integer, a tie going to the even one.\<close>

definition round_even :: "rat \<Rightarrow> int" where
  "round_even x = (let n = \<lfloor>x\<rfloor>; r = x - of_int n in
     if r < 1 / 2 then n else if 1 / 2 < r then n + 1 else if even n then n else n + 1)"

text \<open>
  \<open>fl q\<close> is the double nearest to the exact result \<open>q\<close> (round to nearest, ties to
  even): 53 significant bits, the exponent not below \<open>-1022\<close> (so that small results
  are subnormal, in steps of \<open>2^-1074\<close>), and an infinity once the rounded magnitude
  reaches \<open>2^1024\<close>. A magnitude in a binade below \<open>1023\<close> rounds to at most \<open>2^1023\<close>,
  which is why the test against \<open>2^1024\<close> is made for the top binades only.
\<close>

definition fl :: "rat \<Rightarrow> jsnum" where
  "fl q = (if q = 0 then Num 0 else
     let a = \<bar>q\<bar>; e = max (binade a) (- 1022); u = power_int 2 (e - 52);
         m = of_int (round_even (a / u)) * u
     in if e < 1023 then Num (if 0 < q then m else - m)
        else if power_int 2 1024 \<le> m then (if 0 < q then PosInf else NegInf)
        else Num (if 0 < q then m else - m))"

fun jneg :: "jsnum \<Rightarrow> jsnum" where
  "jneg (Num a) = Num (- a)"
| "jneg PosInf = NegInf"
| "jneg NegInf = PosInf"
| "jneg NaN = NaN"

text \<open>\<open>x + y\<close>\<close>

fun jadd :: "jsnum \<Rightarrow> jsnum \<Rightarrow> jsnum" where
  "jadd (Num a) (Num b) = fl (a + b)"
| "jadd NaN y = NaN"
| "jadd x NaN = NaN"
| "jadd PosInf NegInf = NaN"
| "jadd NegInf PosInf = NaN"
| "jadd PosInf y = PosInf"
| "jadd NegInf y = NegInf"
| "jadd (Num a) y = y"

text \<open>\<open>x - y\<close>\<close>

fun jsub :: "jsnum \<Rightarrow> jsnum \<Rightarrow> jsnum" where
  "jsub (Num a) (Num b) = fl (a - b)"
| "jsub NaN y = NaN"
| "jsub x NaN = NaN"
| "jsub PosInf PosInf = NaN"
| "jsub NegInf NegInf = NaN"
| "jsub PosInf y = PosInf"
| "jsub NegInf y = NegInf"
| "jsub (Num a) y = jneg y"

text \<open>\<open>x * y\<close>\<close>

fun jmul :: "jsnum \<Rightarrow> jsnum \<Rightarrow> jsnum" where
  "jmul (Num a) (Num b) = fl (a * b)"
| "jmul NaN y = NaN"
| "jmul x NaN = NaN"
| "jmul (Num a) y = (if a = 0 then NaN else if 0 < a then y else jneg y)"
| "jmul x (Num b) = (if b = 0 then NaN else if 0 < b then x else jneg x)"
| "jmul PosInf y = y"
| "jmul NegInf y = jneg y"

text \<open>\<open>x / y\<close>: a non-zero number over zero is an infinity, zero over zero is NaN.\<close>

fun jdiv :: "jsnum \<Rightarrow> jsnum \<Rightarrow> jsnum" where
  "jdiv (Num a) (Num b) =
     (if b = 0 then (if a = 0 then NaN else if 0 < a then PosInf else NegInf)
      else fl (a / b))"
| "jdiv NaN y = NaN"
| "jdiv x NaN = NaN"
| "jdiv (Num a) y = Num 0"
| "jdiv x (Num b) = (if 0 \<le> b then x else jneg x)"
| "jdiv x y = NaN"

text \<open>\<^verbatim>\<open>Math.floor\<close>, \<^verbatim>\<open>Math.round\<close> (a tie goes up), \<^verbatim>\<open>Math.min\<close>, \<^verbatim>\<open>Math.max\<close>.\<close>

fun jfloor :: "jsnum \<Rightarrow> jsnum" where
  "jfloor (Num a) = Num (of_int \<lfloor>a\<rfloor>)"
| "jfloor x = x"

fun jround :: "jsnum \<Rightarrow> jsnum" where
  "jround (Num a) = Num (of_int \<lfloor>a + 1 / 2\<rfloor>)"
| "jround x = x"

fun jmin :: "jsnum \<Rightarrow> jsnum \<Rightarrow> jsnum" where
  "jmin NaN y = NaN"
| "jmin x NaN = NaN"
| "jmin NegInf y = NegInf"
| "jmin x NegInf = NegInf"
| "jmin PosInf y = y"
| "jmin x PosInf = x"
| "jmin (Num a) (Num b) = Num (min a b)"

fun jmax :: "jsnum \<Rightarrow> jsnum \<Rightarrow> jsnum" where
  "jmax NaN y = NaN"
| "jmax x NaN = NaN"
| "jmax PosInf y = PosInf"
| "jmax x PosInf = PosInf"
| "jmax NegInf y = y"
| "jmax x NegInf = x"
| "jmax (Num a) (Num b) = Num (max a b)"

text \<open>\<open>x <= y\<close>: false as soon as one side is NaN.\<close>

fun jle :: "jsnum \<Rightarrow> jsnum \<Rightarrow> bool" where
  "jle (Num a) (Num b) = (a \<le> b)"
| "jle NaN y = False"
| "jle x NaN = False"
| "jle NegInf y = True"
| "jle x PosInf = True"
| "jle x y = False"

text \<open>A count (an array length, a grid dimension) read as a Number.\<close>

definition jnat :: "nat \<Rightarrow> jsnum" where
  "jnat n = Num (of_nat n)"


section \<open>Constants and the grid\<close>

definition CELL_SIZE :: nat where
  "CELL_SIZE = 10"

definition GRID_COLOR :: string where
  "GRID_COLOR = ''#CCCCCC''"

definition DEAD_COLOR :: string where
  "DEAD_COLOR = ''#E0DEF4''"

definition ALIVE_COLOR :: string where
  "ALIVE_COLOR = ''#191724''"

text \<open>
  \<open>width\<close> and \<open>height\<close> are what \<^verbatim>\<open>universe.width()\<close> and \<^verbatim>\<open>universe.height()\<close>
  returned at start-up: cell counts, the parameters \<open>w\<close> and \<open>h\<close> below.
  \<^verbatim>\<open>canvas.height = (CELL_SIZE + 1) * height + 1\<close>, and the same for the width.
\<close>

definition canvas_height :: "nat \<Rightarrow> nat" where
  "canvas_height h = (CELL_SIZE + 1) * h + 1"

definition canvas_width :: "nat \<Rightarrow> nat" where
  "canvas_width w = (CELL_SIZE + 1) * w + 1"

definition getIndex :: "nat \<Rightarrow> nat \<Rightarrow> nat \<Rightarrow> nat" where
  "getIndex w row column = row * w + column"


section \<open>Counted loops\<close>

text \<open>
  \<^verbatim>\<open>for (let i = i0; i < n; i++) body\<close>: the body is run on the state for
  \<open>i = i0, i0 + 1, \<dots>\<close> as long as \<open>i < n\<close>. (A loop written \<^verbatim>\<open>i <= width\<close> is the
  loop to \<open>Suc width\<close>.)
\<close>

function for_upto :: "nat \<Rightarrow> nat \<Rightarrow> (nat \<Rightarrow> 's \<Rightarrow> 's) \<Rightarrow> 's \<Rightarrow> 's" where
  "for_upto i n body s = (if i < n then for_upto (Suc i) n body (body i s) else s)"
  by pat_completeness auto
termination
  by (relation "measure (\<lambda>(i, n, body, s). n - i)") auto

declare for_upto.simps [simp del]


section \<open>The canvas\<close>

text \<open>The calls made on the 2D context \<^verbatim>\<open>ctx\<close>, in the order they are made.\<close>

datatype canvas_op =
    BeginPath
  | StrokeStyle string
  | FillStyle string
  | MoveTo nat nat
  | LineTo nat nat
  | FillRect nat nat nat nat
  | Stroke

definition drawGrid :: "nat \<Rightarrow> nat \<Rightarrow> canvas_op list" where
  "drawGrid w h =
     (let ops0 = [BeginPath, StrokeStyle GRID_COLOR];
          \<comment> \<open>vertical lines\<close>
          ops1 = for_upto 0 (Suc w) (\<lambda>i ops. ops @
                   [MoveTo (i * (CELL_SIZE + 1) + 1) 0,
                    LineTo (i * (CELL_SIZE + 1) + 1) ((CELL_SIZE + 1) * h + 1)]) ops0;
          \<comment> \<open>horizontal lines\<close>
          ops2 = for_upto 0 (Suc h) (\<lambda>j ops. ops @
                   [MoveTo 0 (j * (CELL_SIZE + 1) + 1),
                    MoveTo ((CELL_SIZE + 1) * w + 1) (j * (CELL_SIZE + 1) + 1)]) ops1
      in ops2 @ [Stroke])"

text \<open>
  The cell buffer is read through a \<^verbatim>\<open>Uint8Array\<close> view of \<open>width * height\<close> bytes,
  each compared with \<^verbatim>\<open>Cell.Alive\<close> and \<^verbatim>\<open>Cell.Dead\<close>. An index outside the view
  reads \<^verbatim>\<open>undefined\<close>, which is neither.
\<close>

datatype cell = Dead | Alive

definition cell_at :: "cell list \<Rightarrow> nat \<Rightarrow> cell option" where
  "cell_at cells idx = (if idx < length cells then Some (cells ! idx) else None)"

definition fillCells :: "nat \<Rightarrow> nat \<Rightarrow> cell list \<Rightarrow> cell \<Rightarrow> canvas_op list \<Rightarrow> canvas_op list" where
  "fillCells w h cells c ops0 =
     for_upto 0 h (\<lambda>row ops1.
       for_upto 0 w (\<lambda>col ops.
         let idx = getIndex w row col in
         if cell_at cells idx \<noteq> Some c then ops
         else ops @ [FillRect (col * (CELL_SIZE + 1) + 1) (row * (CELL_SIZE + 1) + 1)
                       CELL_SIZE CELL_SIZE]) ops1) ops0"

definition drawCells :: "nat \<Rightarrow> nat \<Rightarrow> cell list \<Rightarrow> canvas_op list" where
  "drawCells w h cells =
     (let ops0 = [BeginPath, FillStyle ALIVE_COLOR];
          ops1 = fillCells w h cells Alive ops0;
          ops2 = ops1 @ [FillStyle DEAD_COLOR];
          ops3 = fillCells w h cells Dead ops2
      in ops3 @ [Stroke])"

text \<open>
  What a sequence of context calls strokes, as the list of straight segments drawn:
  \<^verbatim>\<open>beginPath\<close> empties the current path, \<^verbatim>\<open>moveTo\<close> moves the pen without drawing,
  \<^verbatim>\<open>lineTo\<close> adds the segment from the pen to its target (and only moves the pen when
  the path has no point yet), \<^verbatim>\<open>stroke\<close> draws the segments of the current path.
\<close>

type_synonym point = "nat \<times> nat"

fun stroked :: "(point \<times> point) list \<Rightarrow> point option \<Rightarrow> canvas_op list \<Rightarrow> (point \<times> point) list" where
  "stroked path pen [] = []"
| "stroked path pen (BeginPath # ops) = stroked [] None ops"
| "stroked path pen (MoveTo x y # ops) = stroked path (Some (x, y)) ops"
| "stroked path pen (LineTo x y # ops) =
     (case pen of
        None \<Rightarrow> stroked path (Some (x, y)) ops
      | Some p \<Rightarrow> stroked (path @ [(p, (x, y))]) (Some (x, y)) ops)"
| "stroked path pen (Stroke # ops) = path @ stroked path pen ops"
| "stroked path pen (_ # ops) = stroked path pen ops"

definition is_vertical :: "point \<times> point \<Rightarrow> bool" where
  "is_vertical l = (fst (fst l) = fst (snd l) \<and> snd (fst l) \<noteq> snd (snd l))"

definition is_horizontal :: "point \<times> point \<Rightarrow> bool" where
  "is_horizontal l = (snd (fst l) = snd (snd l) \<and> fst (fst l) \<noteq> fst (snd l))"


section \<open>The frame-rate monitor\<close>

text \<open>
  The object \<^verbatim>\<open>fps\<close>: its window of samples \<^verbatim>\<open>frames\<close> and the clock reading of the
  last call. The constructor reads the clock once; \<open>now\<close> is what
  \<^verbatim>\<open>performance.now()\<close> returned.
\<close>

record fps_monitor =
  frames :: "jsnum list"
  lastFrameTimeStamp :: jsnum

definition fps_new :: "jsnum \<Rightarrow> fps_monitor" where
  "fps_new now = \<lparr>frames = [], lastFrameTimeStamp = now\<rparr>"

text \<open>The statistics of a window: the locals \<^verbatim>\<open>min\<close>, \<^verbatim>\<open>max\<close> and \<^verbatim>\<open>mean\<close>.\<close>

record fps_stats =
  st_min :: jsnum
  st_max :: jsnum
  st_mean :: jsnum

definition frame_stats :: "jsnum list \<Rightarrow> fps_stats" where
  "frame_stats fr =
     (let (mn, mx, sm) =
            for_upto 0 (length fr)
              (\<lambda>i (mn, mx, sm). (jmin (fr ! i) mn, jmax (fr ! i) mx, jadd sm (fr ! i)))
              (PosInf, NegInf, Num 0);
          mean = jdiv sm (jnat (length fr))
      in \<lparr>st_min = mn, st_max = mx, st_mean = mean\<rparr>)"

text \<open>The four numbers written into the text of the \<^verbatim>\<open>fps\<close> element.\<close>

record fps_text =
  txt_latest :: jsnum
  txt_avg :: jsnum
  txt_min :: jsnum
  txt_max :: jsnum

text \<open>\<^verbatim>\<open>1 / delta * 1000\<close> for the clock readings \<open>prev\<close> (the last one) and \<open>now\<close>.\<close>

definition inst_fps :: "jsnum \<Rightarrow> jsnum \<Rightarrow> jsnum" where
  "inst_fps prev now = (let delta = jsub now prev in jmul (jdiv (Num 1) delta) (Num 1000))"

text \<open>
  \<^verbatim>\<open>render()\<close>, given the clock reading \<open>now\<close>: the monitor after the call, and the
  text it displays.
\<close>

definition fps_render :: "jsnum \<Rightarrow> fps_monitor \<Rightarrow> fps_monitor \<times> fps_text" where
  "fps_render now m =
     (let fps = inst_fps (lastFrameTimeStamp m) now;
          fr1 = frames m @ [fps];
          fr2 = (if length fr1 > 100 then tl fr1 else fr1);
          st = frame_stats fr2
      in (\<lparr>frames = fr2, lastFrameTimeStamp = now\<rparr>,
          \<lparr>txt_latest = jround fps, txt_avg = jround (st_mean st),
           txt_min = jround (st_min st), txt_max = jround (st_max st)\<rparr>))"

text \<open>One call of \<^verbatim>\<open>render()\<close> for each clock reading of a list, in order.\<close>

fun fps_run :: "jsnum list \<Rightarrow> fps_monitor \<Rightarrow> fps_monitor" where
  "fps_run [] m = m"
| "fps_run (now # nows) m = fps_run nows (fst (fps_render now m))"

text \<open>The instantaneous values of a run: one for each reading, from the reading before it.\<close>

fun samples :: "jsnum \<Rightarrow> jsnum list \<Rightarrow> jsnum list" where
  "samples prev [] = []"
| "samples prev (now # nows) = inst_fps prev now # samples now nows"


section \<open>The page\<close>

text \<open>
  The simulation engine (\<^verbatim>\<open>Universe\<close>, imported from the WebAssembly package) is not
  part of \<^verbatim>\<open>www/index.js\<close>: its operations are parameters, on an engine state \<open>'u\<close>.
  \<open>cells\<close> is the content of the byte view that \<^verbatim>\<open>drawCells\<close> makes of the buffer.
\<close>

record 'u engine =
  tick :: "'u \<Rightarrow> 'u"
  toggle_cell :: "jsnum \<Rightarrow> jsnum \<Rightarrow> 'u \<Rightarrow> 'u"
  make_glider :: "jsnum \<Rightarrow> jsnum \<Rightarrow> 'u \<Rightarrow> 'u"
  make_pulsar :: "jsnum \<Rightarrow> jsnum \<Rightarrow> 'u \<Rightarrow> 'u"
  reset_rand :: "'u \<Rightarrow> 'u"
  reset_dead :: "'u \<Rightarrow> 'u"
  cells :: "'u \<Rightarrow> cell list"

text \<open>
  What the page does to the world outside it, in order: calls of the engine, calls of the
  canvas context, the text of the \<^verbatim>\<open>fps\<close> element, the glyph of the play/pause button,
  and the two calls of the frame scheduler (\<^verbatim>\<open>cancelAnimationFrame\<close> with the handle it
  is given, \<open>None\<close> for \<^verbatim>\<open>null\<close>).
\<close>

datatype engine_call =
    Tick
  | ToggleCell jsnum jsnum
  | MakeGlider jsnum jsnum
  | MakePulsar jsnum jsnum
  | ResetRand
  | ResetDead
  | Cells

datatype glyph = PauseGlyph | PlayGlyph

datatype action =
    Engine engine_call
  | Canvas canvas_op
  | FpsText fps_text
  | ButtonText glyph
  | RequestAnimationFrame
  | CancelAnimationFrame "nat option"

text \<open>
  The state of the page: the engine's state, the monitor \<^verbatim>\<open>fps\<close>, \<^verbatim>\<open>animationId\<close>
  (\<open>None\<close> for \<^verbatim>\<open>null\<close>), the value of the range slider (set by the user between 1 and
  50), and the actions made so far.
\<close>

record 'u page =
  universe :: 'u
  fps :: fps_monitor
  animationId :: "nat option"
  sliderValue :: nat
  trace :: "action list"

definition emit :: "action list \<Rightarrow> 'u page \<Rightarrow> 'u page" where
  "emit as st = st\<lparr>trace := trace st @ as\<rparr>"

definition do_drawGrid :: "nat \<Rightarrow> nat \<Rightarrow> 'u page \<Rightarrow> 'u page" where
  "do_drawGrid w h st = emit (map Canvas (drawGrid w h)) st"

definition do_drawCells :: "'u engine \<Rightarrow> nat \<Rightarrow> nat \<Rightarrow> 'u page \<Rightarrow> 'u page" where
  "do_drawCells E w h st =
     emit (Engine Cells # map Canvas (drawCells w h (cells E (universe st)))) st"

definition isPaused :: "'u page \<Rightarrow> bool" where
  "isPaused st = (animationId st = None)"

text \<open>
  \<^verbatim>\<open>renderLoop\<close>. \<open>now\<close> is the clock reading \<^verbatim>\<open>fps.render()\<close> takes and \<open>handle\<close>
  what \<^verbatim>\<open>requestAnimationFrame\<close> returns. The loop test reads the slider at each
  round; nothing in the body changes it.
\<close>

definition renderLoop :: "'u engine \<Rightarrow> nat \<Rightarrow> nat \<Rightarrow> jsnum \<Rightarrow> nat \<Rightarrow> 'u page \<Rightarrow> 'u page" where
  "renderLoop E w h now handle st =
     (let (m, txt) = fps_render now (fps st);
          st1 = emit [FpsText txt] (st\<lparr>fps := m\<rparr>);
          st2 = for_upto 0 (sliderValue st1)
                  (\<lambda>i s. emit [Engine Tick] (s\<lparr>universe := tick E (universe s)\<rparr>)) st1;
          st3 = do_drawGrid w h st2;
          st4 = do_drawCells E w h st3
      in (emit [RequestAnimationFrame] st4)\<lparr>animationId := Some handle\<rparr>)"

definition play :: "'u engine \<Rightarrow> nat \<Rightarrow> nat \<Rightarrow> jsnum \<Rightarrow> nat \<Rightarrow> 'u page \<Rightarrow> 'u page" where
  "play E w h now handle st = renderLoop E w h now handle (emit [ButtonText PauseGlyph] st)"

definition pause :: "'u page \<Rightarrow> 'u page" where
  "pause st =
     (emit [ButtonText PlayGlyph, CancelAnimationFrame (animationId st)] st)
       \<lparr>animationId := None\<rparr>"

text \<open>The click listener of the play/pause button.\<close>

definition playPause_click :: "'u engine \<Rightarrow> nat \<Rightarrow> nat \<Rightarrow> jsnum \<Rightarrow> nat \<Rightarrow> 'u page \<Rightarrow> 'u page" where
  "playPause_click E w h now handle st =
     (if isPaused st then play E w h now handle st else pause st)"

text \<open>
  Start-up: the engine state \<open>u\<close> from \<^verbatim>\<open>Universe.new\<close>, the monitor made at the clock
  reading \<open>t0\<close>, \<^verbatim>\<open>animationId = null\<close>, the slider at 1; then the last three lines of
  the file, \<^verbatim>\<open>drawGrid(); drawCells(); pause();\<close>.
\<close>

definition page_start :: "'u engine \<Rightarrow> nat \<Rightarrow> nat \<Rightarrow> 'u \<Rightarrow> jsnum \<Rightarrow> 'u page" where
  "page_start E w h u t0 =
     pause (do_drawCells E w h (do_drawGrid w h
       \<lparr>universe = u, fps = fps_new t0, animationId = None, sliderValue = 1, trace = []\<rparr>))"


section \<open>Clicks on the canvas\<close>

record click_event =
  clientX :: jsnum
  clientY :: jsnum
  ctrlKey :: bool
  shiftKey :: bool

text \<open>What \<^verbatim>\<open>canvas.getBoundingClientRect()\<close> returns.\<close>

record dom_rect =
  rect_left :: jsnum
  rect_top :: jsnum
  rect_width :: jsnum
  rect_height :: jsnum

text \<open>The pair \<^verbatim>\<open>canvasLeft\<close>, \<^verbatim>\<open>canvasTop\<close>: the pointer in raster coordinates.\<close>

definition canvas_pos :: "nat \<Rightarrow> nat \<Rightarrow> dom_rect \<Rightarrow> click_event \<Rightarrow> jsnum \<times> jsnum" where
  "canvas_pos w h boundingRect event =
     (let scaleX = jdiv (jnat (canvas_width w)) (rect_width boundingRect);
          scaleY = jdiv (jnat (canvas_height h)) (rect_height boundingRect);
          canvasLeft = jmul (jsub (clientX event) (rect_left boundingRect)) scaleX;
          canvasTop = jmul (jsub (clientY event) (rect_top boundingRect)) scaleY
      in (canvasLeft, canvasTop))"

text \<open>
  \<^verbatim>\<open>Math.min(Math.floor(canvasTop / (CELL_SIZE + 1)), height - 1)\<close>, and the same for the
  column. \<^verbatim>\<open>height - 1\<close> is \<open>-1\<close> when the height is 0.
\<close>

definition cell_row :: "nat \<Rightarrow> jsnum \<Rightarrow> jsnum" where
  "cell_row h canvasTop =
     jmin (jfloor (jdiv canvasTop (jnat (CELL_SIZE + 1)))) (Num (of_int (int h - 1)))"

definition cell_col :: "nat \<Rightarrow> jsnum \<Rightarrow> jsnum" where
  "cell_col w canvasLeft =
     jmin (jfloor (jdiv canvasLeft (jnat (CELL_SIZE + 1)))) (Num (of_int (int w - 1)))"

text \<open>The pair \<^verbatim>\<open>row\<close>, \<^verbatim>\<open>col\<close> of a click.\<close>

definition click_cell :: "nat \<Rightarrow> nat \<Rightarrow> dom_rect \<Rightarrow> click_event \<Rightarrow> jsnum \<times> jsnum" where
  "click_cell w h boundingRect event =
     (let (canvasLeft, canvasTop) = canvas_pos w h boundingRect event
      in (cell_row h canvasTop, cell_col w canvasLeft))"

text \<open>The click listener of the canvas.\<close>

definition canvas_click :: "'u engine \<Rightarrow> nat \<Rightarrow> nat \<Rightarrow> dom_rect \<Rightarrow> click_event \<Rightarrow> 'u page \<Rightarrow> 'u page" where
  "canvas_click E w h boundingRect event st =
     (let (row, col) = click_cell w h boundingRect event;
          st1 = (if ctrlKey event then
                   emit [Engine (MakeGlider row col)]
                     (st\<lparr>universe := make_glider E row col (universe st)\<rparr>)
                 else if shiftKey event then
                   emit [Engine (MakePulsar row col)]
                     (st\<lparr>universe := make_pulsar E row col (universe st)\<rparr>)
                 else
                   emit [Engine (ToggleCell row col)]
                     (st\<lparr>universe := toggle_cell E row col (universe st)\<rparr>))
      in do_drawCells E w h (do_drawGrid w h st1))"

text \<open>The click listeners of the two reset buttons.\<close>

definition resetRand_click :: "'u engine \<Rightarrow> nat \<Rightarrow> nat \<Rightarrow> 'u page \<Rightarrow> 'u page" where
  "resetRand_click E w h st =
     do_drawCells E w h (do_drawGrid w h
       (emit [Engine ResetRand] (st\<lparr>universe := reset_rand E (universe st)\<rparr>)))"

definition resetDead_click :: "'u engine \<Rightarrow> nat \<Rightarrow> nat \<Rightarrow> 'u page \<Rightarrow> 'u page" where
  "resetDead_click E w h st =
     do_drawCells E w h (do_drawGrid w h
       (emit [Engine ResetDead] (st\<lparr>universe := reset_dead E (universe st)\<rparr>)))"

text \<open>A Number that is a valid index of a dimension \<open>n\<close>: an integer from 0 to \<open>n - 1\<close>.\<close>

definition in_grid :: "nat \<Rightarrow> jsnum \<Rightarrow> bool" where
  "in_grid n x = (case x of Num q \<Rightarrow> q = of_int \<lfloor>q\<rfloor> \<and> 0 \<le> q \<and> q < of_nat n | _ \<Rightarrow> False)"

text \<open>The engine calls that change the grid: all but the read \<^verbatim>\<open>cells()\<close>.\<close>

fun is_mutation :: "action \<Rightarrow> bool" where
  "is_mutation (Engine Cells) = False"
| "is_mutation (Engine c) = True"
| "is_mutation a = False"

text \<open>The actions a step adds: the trace after it, without the trace before it.\<close>

definition added :: "'u page \<Rightarrow> 'u page \<Rightarrow> action list" where
  "added st st' = drop (length (trace st)) (trace st')"

text \<open>A toy engine for examples: its state is the list of the mutating calls made.\<close>

definition log_engine :: "engine_call list engine" where
  "log_engine =
     \<lparr>tick = (\<lambda>u. u @ [Tick]),
      toggle_cell = (\<lambda>r c u. u @ [ToggleCell r c]),
      make_glider = (\<lambda>r c u. u @ [MakeGlider r c]),
      make_pulsar = (\<lambda>r c u. u @ [MakePulsar r c]),
      reset_rand = (\<lambda>u. u @ [ResetRand]),
      reset_dead = (\<lambda>u. u @ [ResetDead]),
      cells = (\<lambda>u. [])\<rparr>"


section \<open>Properties of the rounding\<close>

lemma blen_bounds:
  "0 < n \<Longrightarrow> 2 ^ (blen n - 1) \<le> n \<and> n < 2 ^ blen n"
proof (induction n rule: blen.induct)
  case (1 n)
  show ?case
  proof (cases "n div 2 = 0")
    case True
    with "1.prems" have "n = 1" by (simp add: div_eq_0_iff) 
    moreover have "blen (Suc 0) = Suc 0"
      by (simp add: blen.simps [of "Suc 0"] blen.simps [of 0])
    ultimately show ?thesis by simp
  next
    case False
    then have pos: "0 < n div 2" by simp
    from "1.prems" have n0: "n \<noteq> 0" by simp
    from "1.IH" [OF n0 pos]
    have ih: "2 ^ (blen (n div 2) - 1) \<le> n div 2" "n div 2 < 2 ^ blen (n div 2)" by simp_all
    have b: "blen n = Suc (blen (n div 2))" using n0 by (subst blen.simps) simp
    have bp: "0 < blen (n div 2)" using pos by (subst blen.simps) simp
    then have e: "blen n - 1 = Suc (blen (n div 2) - 1)" using b by simp
    have "(2::nat) ^ (blen n - 1) = 2 * 2 ^ (blen (n div 2) - 1)" by (simp only: e power_Suc)
    also have "\<dots> \<le> 2 * (n div 2)" using ih(1) by simp
    also have "\<dots> \<le> n" by simp
    finally have lo: "2 ^ (blen n - 1) \<le> n" .
    have "n < 2 * (n div 2) + 2" by presburger
    also have "\<dots> \<le> 2 * 2 ^ blen (n div 2)" using ih(2) by simp
    finally have hi: "n < 2 ^ blen n" by (simp add: b)
    from lo hi show ?thesis ..
  qed
qed

text \<open>\<open>binade a\<close> is the binary exponent of a positive \<open>a\<close>.\<close>

lemma binade_bounds:
  assumes "0 < a"
  shows "power_int 2 (binade a) \<le> a \<and> a < power_int 2 (binade a + 1)"
proof (cases "1 \<le> a")
  case True
  define n where "n = nat \<lfloor>a\<rfloor>"
  from True have fl1: "1 \<le> \<lfloor>a\<rfloor>" by simp
  then have nn: "rat_of_nat n = of_int \<lfloor>a\<rfloor>"
    unfolding n_def by (simp add: of_nat_nat)
  have n: "0 < n" "rat_of_nat n \<le> a" "a < rat_of_nat n + 1"
    using fl1 floor_correct [of a] unfolding nn by (simp_all add: n_def)
  from blen_bounds [OF n(1)] have b: "2 ^ (blen n - 1) \<le> n" "n < 2 ^ blen n" by simp_all
  have bp: "0 < blen n" using n(1) by (subst blen.simps) simp
  have e: "binade a = int (blen n - 1)" using True bp by (simp add: binade_def n_def)
  have "(2::rat) ^ (blen n - 1) \<le> of_nat n"
    using b(1) by (metis of_nat_le_iff of_nat_numeral of_nat_power)
  then have "(2::rat) ^ (blen n - 1) \<le> a" using n(2) by (rule order_trans)
  then have lo: "power_int 2 (binade a) \<le> a" by (simp add: e power_int_def)
  have "Suc n \<le> 2 ^ blen n" using b(2) by simp
  then have "rat_of_nat (Suc n) \<le> 2 ^ blen n"
    by (metis of_nat_le_iff of_nat_numeral of_nat_power)
  with n(3) have "a < 2 ^ blen n" by simp
  moreover have "binade a + 1 = int (blen n)" using e bp by simp
  ultimately have hi: "a < power_int 2 (binade a + 1)" by (simp add: power_int_def)
  from lo hi show ?thesis ..
next
  case False
  then have a1: "a < 1" by simp
  define m where "m = nat (\<lceil>1 / a\<rceil> - 1)"
  have inv: "1 < 1 / a" using assms a1 by simp
  then have c2: "2 \<le> \<lceil>1 / a\<rceil>" by (simp add: le_ceiling_iff) 
  then have k0: "0 \<le> \<lceil>1 / a\<rceil> - 1" by linarith
  have "rat_of_nat m = of_int (\<lceil>1 / a\<rceil> - 1)"
    unfolding m_def using k0 by (rule of_nat_nat)
  then have mm: "rat_of_nat m = of_int \<lceil>1 / a\<rceil> - 1" by simp
  have m: "0 < m" "1 / a \<le> rat_of_nat m + 1" "rat_of_nat m < 1 / a"
    using c2 ceiling_correct [of "1 / a"] unfolding mm by (simp_all add: m_def)
  from blen_bounds [OF m(1)] have b: "2 ^ (blen m - 1) \<le> m" "m < 2 ^ blen m" by simp_all
  have bp: "0 < blen m" using m(1) by (subst blen.simps) simp
  have e: "binade a = - int (blen m)" using False by (simp add: binade_def m_def)
  have "Suc m \<le> 2 ^ blen m" using b(2) by simp
  then have "rat_of_nat (Suc m) \<le> 2 ^ blen m"
    by (metis of_nat_le_iff of_nat_numeral of_nat_power)
  with m(2) have "1 / a \<le> 2 ^ blen m" by simp
  then have "1 \<le> 2 ^ blen m * a" using assms by (simp add: pos_divide_le_eq)
  then have "1 / 2 ^ blen m \<le> a" by (simp add: pos_divide_le_eq mult.commute)
  then have lo: "power_int 2 (binade a) \<le> a"
    using bp by (simp add: e power_int_def inverse_eq_divide power_one_over)
  have "(2::rat) ^ (blen m - 1) \<le> of_nat m"
    using b(1) by (metis of_nat_le_iff of_nat_numeral of_nat_power)
  then have "2 ^ (blen m - 1) < 1 / a" using m(3) by (rule le_less_trans)
  then have "2 ^ (blen m - 1) * a < 1" using assms by (simp add: pos_less_divide_eq)
  then have h: "a < 1 / 2 ^ (blen m - 1)" by (simp add: pos_less_divide_eq mult.commute)
  have eq: "binade a + 1 = - int (blen m - 1)" using e bp by simp
  have "power_int (2::rat) (binade a + 1) = 1 / 2 ^ (blen m - 1)"
    by (simp only: eq power_int_minus power_int_of_nat inverse_eq_divide)
  with h have hi: "a < power_int 2 (binade a + 1)" by simp
  from lo hi show ?thesis ..
qed

lemma round_even_close: "\<bar>rat_of_int (round_even x) - x\<bar> \<le> 1 / 2"
proof -
  have f: "rat_of_int \<lfloor>x\<rfloor> \<le> x" "x < rat_of_int \<lfloor>x\<rfloor> + 1"
    using floor_correct [of x] by simp_all
  show ?thesis
    unfolding round_even_def Let_def using f by (auto simp: abs_le_iff)
qed


text \<open>
  A finite \<open>fl q\<close> is a multiple of the spacing \<open>2^(e - 52)\<close> of the doubles of the binade
  \<open>e\<close> of \<open>q\<close> (of \<open>2^-1074\<close> below the normal range), at most half a spacing from \<open>q\<close>.
\<close>

lemma fl_close:
  assumes "fl q = Num m"
  shows "\<bar>m - q\<bar> \<le> power_int 2 (max (binade \<bar>q\<bar>) (- 1022) - 52) / 2"
proof (cases "q = 0")
  case True
  with assms show ?thesis by (simp add: fl_def)
next
  case False
  define u :: rat where "u = power_int 2 (max (binade \<bar>q\<bar>) (- 1022) - 52)"
  have u: "0 < u" unfolding u_def by (rule zero_less_power_int) simp
  define r where "r = rat_of_int (round_even (\<bar>q\<bar> / u))"
  have "\<bar>r - \<bar>q\<bar> / u\<bar> \<le> 1 / 2" unfolding r_def by (rule round_even_close)
  then have "\<bar>r - \<bar>q\<bar> / u\<bar> * u \<le> 1 / 2 * u" using u by (simp only: mult_le_cancel_right_pos)
  moreover have "\<bar>r - \<bar>q\<bar> / u\<bar> * u = \<bar>r * u - \<bar>q\<bar>\<bar>"
  proof -
    have "(r - \<bar>q\<bar> / u) * u = r * u - \<bar>q\<bar>"
      using u by (simp add: left_diff_distrib)
    then have "\<bar>r * u - \<bar>q\<bar>\<bar> = \<bar>(r - \<bar>q\<bar> / u) * u\<bar>" by simp
    also have "\<dots> = \<bar>r - \<bar>q\<bar> / u\<bar> * \<bar>u\<bar>" by (rule abs_mult)
    also have "\<bar>u\<bar> = u" using u by simp
    finally show ?thesis by simp
  qed
  ultimately have c: "\<bar>r * u - \<bar>q\<bar>\<bar> \<le> u / 2" by simp
  define s where "s = (if 0 < q then r * u else - (r * u))"
  define big where "big = (power_int 2 1024 \<le> r * u)"
  define low where "low = (max (binade \<bar>q\<bar>) (- 1022) < 1023)"
  have "fl q = (if low then Num s
                else if big then (if 0 < q then PosInf else NegInf) else Num s)"
    unfolding s_def big_def low_def r_def u_def
    by (simp only: fl_def Let_def False if_False)
  with assms have "m = s"
    by (cases low; cases big; cases "0 < q") simp_all
  then have "m = (if 0 < q then r * u else - (r * u))" by (simp only: s_def)
  then have "\<bar>m - q\<bar> = \<bar>r * u - \<bar>q\<bar>\<bar>"
    by (cases "0 < q") (auto simp: abs_if)
  with c show ?thesis unfolding u_def by simp
qed


section \<open>Properties of the grid\<close>

lemma getIndex_inj:
  assumes "c < w" "c' < w" "getIndex w r c = getIndex w r' c'"
  shows "r = r' \<and> c = c'"
proof -
  from assms have e: "r * w + c = r' * w + c'"
    by (simp add: getIndex_def)
  from assms have "0 < w" by simp
  have "(r * w + c) div w = r" "(r' * w + c') div w = r'"
    using assms by simp_all
  with e have r: "r = r'" by simp
  with e have "c = c'" by simp
  with r show ?thesis by simp
qed

lemma getIndex_less:
  assumes "r < h" "c < w"
  shows "getIndex w r c < w * h"
proof -
  have "r * w + c < r * w + w" using assms by simp
  also have "\<dots> = Suc r * w" by simp
  also have "\<dots> \<le> h * w" using assms by (intro mult_le_mono1) simp
  finally show ?thesis by (simp add: getIndex_def mult.commute)
qed

text \<open>
  C8. The row-major index \<open>row * width + column\<close> maps the valid pairs
  (\<open>row < height\<close>, \<open>column < width\<close>) one-to-one onto the indices below \<open>width * height\<close>.
\<close>

theorem getIndex_bijection:
  "bij_betw (\<lambda>(row, column). getIndex w row column) ({0..<h} \<times> {0..<w}) {0..<w * h}"
proof (rule bij_betwI')
  fix x y
  assume "x \<in> {0..<h} \<times> {0..<w}" "y \<in> {0..<h} \<times> {0..<w}"
  then show "((case x of (row, column) \<Rightarrow> getIndex w row column) =
             (case y of (row, column) \<Rightarrow> getIndex w row column)) = (x = y)"
    by (auto dest: getIndex_inj)
next
  fix x
  assume "x \<in> {0..<h} \<times> {0..<w}"
  then show "(case x of (row, column) \<Rightarrow> getIndex w row column) \<in> {0..<w * h}"
    by (auto intro: getIndex_less)
next
  fix i
  assume i: "i \<in> {0..<w * h}"
  then have w: "0 < w" by (cases w) simp_all
  have "i div w < h"
    using i w by (simp add: less_mult_imp_div_less mult.commute)
  moreover have "i mod w < w" using w by simp
  moreover have "getIndex w (i div w) (i mod w) = i"
    by (simp add: getIndex_def)
  ultimately show "\<exists>x \<in> {0..<h} \<times> {0..<w}. i = (case x of (row, column) \<Rightarrow> getIndex w row column)"
    by (intro bexI [of _ "(i div w, i mod w)"]) auto
qed

theorem getIndex_bijection_witness:
  "bij_betw (\<lambda>(row, column). getIndex 3 row column) ({0..<2} \<times> {0..<3}) {0..<6}"
  using getIndex_bijection [of 3 2] by simp


section \<open>Properties of the loops\<close>

lemma for_upto_foldl:
  "for_upto i n body s = foldl (\<lambda>s i. body i s) s [i..<n]"
proof (induction i n body s rule: for_upto.induct)
  case (1 i n body s)
  show ?case
  proof (cases "i < n")
    case True
    with 1 show ?thesis
      by (subst for_upto.simps) (simp add: upt_conv_Cons)
  next
    case False
    then show ?thesis
      by (subst for_upto.simps) simp
  qed
qed

lemma for_upto_append:
  "for_upto i n (\<lambda>i ops. ops @ f i) ops0 = ops0 @ concat (map f [i..<n])"
proof -
  have "foldl (\<lambda>s i. s @ f i) s xs = s @ concat (map f xs)" for s and xs :: "nat list"
    by (induction xs arbitrary: s) simp_all
  then show ?thesis
    by (simp add: for_upto_foldl)
qed


section \<open>Properties of the renderer\<close>

lemma drawGrid_ops:
  "drawGrid w h = [BeginPath, StrokeStyle GRID_COLOR]
     @ concat (map (\<lambda>i. [MoveTo (i * 11 + 1) 0, LineTo (i * 11 + 1) (11 * h + 1)]) [0..<Suc w])
     @ concat (map (\<lambda>j. [MoveTo 0 (j * 11 + 1), MoveTo (11 * w + 1) (j * 11 + 1)]) [0..<Suc h])
     @ [Stroke]"
  unfolding drawGrid_def Let_def for_upto_append CELL_SIZE_def by simp

lemma stroked_vertical:
  "stroked path pen
     (concat (map (\<lambda>i. [MoveTo (i * 11 + 1) 0, LineTo (i * 11 + 1) y]) xs) @ ops)
   = stroked (path @ map (\<lambda>i. ((i * 11 + 1, 0), (i * 11 + 1, y))) xs)
       (if xs = [] then pen else Some (last xs * 11 + 1, y)) ops"
  by (induction xs arbitrary: path pen) simp_all

lemma stroked_moves:
  "stroked path pen
     (concat (map (\<lambda>j. [MoveTo 0 (j * 11 + 1), MoveTo x (j * 11 + 1)]) xs) @ ops)
   = stroked path (if xs = [] then pen else Some (x, last xs * 11 + 1)) ops"
  by (induction xs arbitrary: pen) simp_all

text \<open>
  For every grid, what \<open>drawGrid\<close> strokes is the \<open>width + 1\<close> vertical lines, line \<open>i\<close>
  at \<open>x = i * 11 + 1\<close> from \<open>y = 0\<close> to \<open>y = 11 * height + 1\<close>, and nothing else: the
  second loop only moves the pen.
\<close>

lemma drawGrid_stroked:
  "stroked [] None (drawGrid w h)
   = map (\<lambda>i. ((i * 11 + 1, 0), (i * 11 + 1, 11 * h + 1))) [0..<Suc w]"
proof -
  have "stroked [] None (drawGrid w h)
      = stroked [] None
          (concat (map (\<lambda>i. [MoveTo (i * 11 + 1) 0, LineTo (i * 11 + 1) (11 * h + 1)]) [0..<Suc w])
           @ (concat (map (\<lambda>j. [MoveTo 0 (j * 11 + 1), MoveTo (11 * w + 1) (j * 11 + 1)]) [0..<Suc h])
           @ [Stroke]))"
    by (simp only: drawGrid_ops append.simps stroked.simps)
  also have "\<dots> = stroked ([] @ map (\<lambda>i. ((i * 11 + 1, 0), (i * 11 + 1, 11 * h + 1))) [0..<Suc w])
          (if [0..<Suc w] = [] then None else Some (last [0..<Suc w] * 11 + 1, 11 * h + 1))
          (concat (map (\<lambda>j. [MoveTo 0 (j * 11 + 1), MoveTo (11 * w + 1) (j * 11 + 1)]) [0..<Suc h])
           @ [Stroke])"
    by (rule stroked_vertical)
  also have "\<dots> = map (\<lambda>i. ((i * 11 + 1, 0), (i * 11 + 1, 11 * h + 1))) [0..<Suc w]"
    by (simp only: stroked_moves) simp
  finally show ?thesis .
qed

lemma drawGrid_no_horizontal:
  "\<not> is_horizontal l" if "l \<in> set (stroked [] None (drawGrid w h))"
  using that by (auto simp: drawGrid_stroked is_horizontal_def)

text \<open>
  C5. On the grid of width 2 and height 2, \<open>drawGrid\<close> strokes the three vertical
  lines \<open>x = 1, 12, 23\<close> from \<open>y = 0\<close> to \<open>y = 23\<close> and not one of the three horizontal
  lines: of the \<open>height + 1\<close> horizontal lines of the specification, none is drawn.
\<close>

theorem drawGrid_2_2_strokes_no_horizontal_line:
  "stroked [] None (drawGrid 2 2) = [((1, 0), (1, 23)), ((12, 0), (12, 23)), ((23, 0), (23, 23))]
   \<and> filter is_horizontal (stroked [] None (drawGrid 2 2)) = []
   \<and> length (filter is_vertical (stroked [] None (drawGrid 2 2))) = 3"
  by code_simp


section \<open>Properties of the frame-rate monitor\<close>

lemma frames_fps_render:
  "frames (fst (fps_render now m)) =
     (if length (frames m) \<ge> 100 then tl (frames m @ [inst_fps (lastFrameTimeStamp m) now])
      else frames m @ [inst_fps (lastFrameTimeStamp m) now])"
  by (simp add: fps_render_def Let_def)

lemma last_fps_render [simp]:
  "lastFrameTimeStamp (fst (fps_render now m)) = now"
  by (simp add: fps_render_def Let_def)

lemma frames_fps_render_drop:
  assumes "length (frames m) \<le> 100"
  shows "frames (fst (fps_render now m)) =
     drop (Suc (length (frames m)) - 100) (frames m @ [inst_fps (lastFrameTimeStamp m) now])"
proof (cases "length (frames m) = 100")
  case True
  then have "Suc (length (frames m)) - 100 = Suc 0" by simp
  with True show ?thesis
    by (simp only: frames_fps_render drop_Suc drop_0) simp
next
  case False
  with assms have "length (frames m) < 100" by simp
  then show ?thesis
    by (simp add: frames_fps_render)
qed

lemma fps_run_window:
  assumes "length (frames m) \<le> 100"
  shows "frames (fps_run nows m) =
     drop (length (frames m) + length nows - 100) (frames m @ samples (lastFrameTimeStamp m) nows)"
  using assms
proof (induction nows arbitrary: m)
  case Nil
  then show ?case by simp
next
  case (Cons now nows)
  let ?m = "fst (fps_render now m)"
  let ?x = "inst_fps (lastFrameTimeStamp m) now"
  let ?k = "Suc (length (frames m)) - 100"
  have fr: "frames ?m = drop ?k (frames m @ [?x])"
    using Cons.prems by (rule frames_fps_render_drop)
  then have len: "length (frames ?m) = Suc (length (frames m)) - ?k"
    by simp
  with Cons.prems have le: "length (frames ?m) \<le> 100" by simp
  have "frames (fps_run (now # nows) m) = frames (fps_run nows ?m)"
    by simp
  also have "\<dots> = drop (length (frames ?m) + length nows - 100)
                     (frames ?m @ samples now nows)"
    using Cons.IH [OF le] by simp
  also have "\<dots> = drop (length (frames ?m) + length nows - 100)
                     (drop ?k ((frames m @ [?x]) @ samples now nows))"
    using fr by simp
  also have "\<dots> = drop (length (frames ?m) + length nows - 100 + ?k)
                     ((frames m @ [?x]) @ samples now nows)"
    by (simp only: drop_drop)
  also have "length (frames ?m) + length nows - 100 + ?k
           = length (frames m) + length (now # nows) - 100"
    using len Cons.prems by simp
  also have "(frames m @ [?x]) @ samples now nows
           = frames m @ samples (lastFrameTimeStamp m) (now # nows)"
    by simp
  finally show ?case .
qed

lemma length_samples [simp]: "length (samples t nows) = length nows"
  by (induction nows arbitrary: t) simp_all

text \<open>
  C3. Started from the constructor's empty window, after any number of calls the window
  holds at most 100 samples, and they are the most recent instantaneous values, oldest
  first: the values of the run with all but the last 100 dropped from the front. After
  exactly 150 calls these are the values of calls 51 to 150, 100 of them.
\<close>

theorem fps_window:
  "length (frames (fps_run nows (fps_new t0))) \<le> 100
   \<and> frames (fps_run nows (fps_new t0)) = drop (length nows - 100) (samples t0 nows)
   \<and> (length nows = 150 \<longrightarrow>
        frames (fps_run nows (fps_new t0)) = drop 50 (samples t0 nows)
        \<and> length (frames (fps_run nows (fps_new t0))) = 100)"
proof -
  have w: "frames (fps_run nows (fps_new t0)) = drop (length nows - 100) (samples t0 nows)"
    using fps_run_window [of "fps_new t0" nows] by (simp add: fps_new_def)
  then show ?thesis by auto
qed

lemma samples_replicate:
  "samples (Num t) (replicate n (Num t)) = replicate n PosInf"
  by (induction n) (simp_all add: inst_fps_def Let_def fl_def)

theorem fps_window_witness:
  "length (replicate 150 (Num 0)) = 150
   \<and> frames (fps_run (replicate 150 (Num 0)) (fps_new (Num 0))) = replicate 100 PosInf"
  using fps_window [of "replicate 150 (Num 0)" "Num 0"]
  by (simp add: samples_replicate)


lemma fl_not_NaN [simp]: "fl q \<noteq> NaN"
  by (simp add: fl_def Let_def)

lemma jle_refl: "x \<noteq> NaN \<Longrightarrow> jle x x"
  by (cases x) simp_all

lemma jle_trans: "jle x y \<Longrightarrow> jle y z \<Longrightarrow> jle x z"
  by (cases x; cases y; cases z) simp_all

lemma jle_PosInf: "jle PosInf x \<Longrightarrow> x = PosInf"
  by (cases x) simp_all

lemma jle_NegInf: "jle x NegInf \<Longrightarrow> x = NegInf"
  by (cases x) simp_all

lemma jmin_props:
  assumes "x \<noteq> NaN" "y \<noteq> NaN"
  shows "jmin x y \<noteq> NaN" "jmin x y = x \<or> jmin x y = y" "jle (jmin x y) x" "jle (jmin x y) y"
  using assms by (cases x; cases y; simp add: min_def)+

lemma jmax_props:
  assumes "x \<noteq> NaN" "y \<noteq> NaN"
  shows "jmax x y \<noteq> NaN" "jmax x y = x \<or> jmax x y = y" "jle x (jmax x y)" "jle y (jmax x y)"
  using assms by (cases x; cases y; simp add: max_def)+

lemma foldl_jmin:
  assumes "a \<noteq> NaN" "NaN \<notin> set xs"
  shows "foldl (\<lambda>m x. jmin x m) a xs \<noteq> NaN
       \<and> foldl (\<lambda>m x. jmin x m) a xs \<in> insert a (set xs)
       \<and> jle (foldl (\<lambda>m x. jmin x m) a xs) a
       \<and> (\<forall>x \<in> set xs. jle (foldl (\<lambda>m x. jmin x m) a xs) x)"
  using assms
proof (induction xs arbitrary: a)
  case Nil
  then show ?case by (simp add: jle_refl)
next
  case (Cons x xs)
  let ?a = "jmin x a"
  let ?r = "foldl (\<lambda>m x. jmin x m) ?a xs"
  from Cons.prems have x: "x \<noteq> NaN" and xs: "NaN \<notin> set xs" by auto
  note p = jmin_props [OF x Cons.prems(1)]
  from Cons.IH [OF p(1) xs]
  have r: "?r \<noteq> NaN" "?r \<in> insert ?a (set xs)" "jle ?r ?a" "\<forall>y \<in> set xs. jle ?r y"
    by simp_all
  have "jle ?r a" using r(3) p(4) by (rule jle_trans)
  moreover have "jle ?r x" using r(3) p(3) by (rule jle_trans)
  moreover have "?r \<in> insert a (set (x # xs))" using r(2) p(2) by auto
  ultimately show ?case using r by simp
qed

lemma foldl_jmax:
  assumes "a \<noteq> NaN" "NaN \<notin> set xs"
  shows "foldl (\<lambda>m x. jmax x m) a xs \<noteq> NaN
       \<and> foldl (\<lambda>m x. jmax x m) a xs \<in> insert a (set xs)
       \<and> jle a (foldl (\<lambda>m x. jmax x m) a xs)
       \<and> (\<forall>x \<in> set xs. jle x (foldl (\<lambda>m x. jmax x m) a xs))"
  using assms
proof (induction xs arbitrary: a)
  case Nil
  then show ?case by (simp add: jle_refl)
next
  case (Cons x xs)
  let ?a = "jmax x a"
  let ?r = "foldl (\<lambda>m x. jmax x m) ?a xs"
  from Cons.prems have x: "x \<noteq> NaN" and xs: "NaN \<notin> set xs" by auto
  note p = jmax_props [OF x Cons.prems(1)]
  from Cons.IH [OF p(1) xs]
  have r: "?r \<noteq> NaN" "?r \<in> insert ?a (set xs)" "jle ?a ?r" "\<forall>y \<in> set xs. jle y ?r"
    by simp_all
  have "jle a ?r" using p(4) r(3) by (rule jle_trans)
  moreover have "jle x ?r" using p(3) r(3) by (rule jle_trans)
  moreover have "?r \<in> insert a (set (x # xs))" using r(2) p(2) by auto
  ultimately show ?case using r by simp
qed

lemma foldl_triple:
  "foldl (\<lambda>s i. case s of (mn, mx, sm) \<Rightarrow> (f i mn, g i mx, k sm i)) (a, b, c) xs
   = (foldl (\<lambda>m i. f i m) a xs, foldl (\<lambda>m i. g i m) b xs, foldl k c xs)"
  by (induction xs arbitrary: a b c) simp_all

lemma foldl_nth:
  "foldl (\<lambda>m i. f m (xs ! i)) a [0..<length xs] = foldl f a xs"
proof -
  have "foldl f a (map ((!) xs) [0..<length xs]) = foldl (\<lambda>m i. f m (xs ! i)) a [0..<length xs]"
    by (rule foldl_map)
  then show ?thesis by (simp add: map_nth)
qed

lemma frame_stats_foldl:
  "frame_stats fr =
     \<lparr>st_min = foldl (\<lambda>m x. jmin x m) PosInf fr,
      st_max = foldl (\<lambda>m x. jmax x m) NegInf fr,
      st_mean = jdiv (foldl jadd (Num 0) fr) (jnat (length fr))\<rparr>"
proof -
  have "for_upto 0 (length fr)
          (\<lambda>i (mn, mx, sm). (jmin (fr ! i) mn, jmax (fr ! i) mx, jadd sm (fr ! i)))
          (PosInf, NegInf, Num 0)
      = (foldl (\<lambda>m i. jmin (fr ! i) m) PosInf [0..<length fr],
         foldl (\<lambda>m i. jmax (fr ! i) m) NegInf [0..<length fr],
         foldl (\<lambda>m i. jadd m (fr ! i)) (Num 0) [0..<length fr])"
    unfolding for_upto_foldl by (rule foldl_triple)
  also have "\<dots> = (foldl (\<lambda>m x. jmin x m) PosInf fr, foldl (\<lambda>m x. jmax x m) NegInf fr,
                   foldl jadd (Num 0) fr)"
    using foldl_nth [of "\<lambda>m x. jmin x m" fr PosInf] foldl_nth [of "\<lambda>m x. jmax x m" fr NegInf]
      foldl_nth [of jadd fr "Num 0"]
    by simp
  finally show ?thesis
    by (simp add: frame_stats_def)
qed

lemma sum_list_lower: "(\<forall>q \<in> set qs. a \<le> q) \<Longrightarrow> a * of_nat (length qs) \<le> sum_list (qs :: rat list)"
  by (induction qs) (simp_all add: algebra_simps)

lemma sum_list_upper: "(\<forall>q \<in> set qs. q \<le> b) \<Longrightarrow> sum_list (qs :: rat list) \<le> b * of_nat (length qs)"
  by (induction qs) (simp_all add: algebra_simps)

text \<open>
  C10, as the code has it. For every non-empty window without NaN, \<open>min\<close> and \<open>max\<close> are
  values of the window, the least and the greatest one, so \<open>min \<le> max\<close>; \<open>mean\<close> is the sum
  of the window, added up from the left in double arithmetic, divided by its length in
  double arithmetic. When all values are finite, the exact mean of the window lies between
  \<open>min\<close> and \<open>max\<close>; the computed \<open>mean\<close> is that value up to the rounding of each addition
  and of the division, and is not promised to lie between them.
\<close>

theorem frame_stats_min_max:
  assumes "fr \<noteq> []" and "NaN \<notin> set fr"
  shows "st_min (frame_stats fr) \<in> set fr \<and> (\<forall>x \<in> set fr. jle (st_min (frame_stats fr)) x)
       \<and> st_max (frame_stats fr) \<in> set fr \<and> (\<forall>x \<in> set fr. jle x (st_max (frame_stats fr)))
       \<and> jle (st_min (frame_stats fr)) (st_max (frame_stats fr))
       \<and> st_mean (frame_stats fr) = jdiv (foldl jadd (Num 0) fr) (jnat (length fr))
       \<and> (\<forall>qs. fr = map Num qs \<longrightarrow>
            jle (st_min (frame_stats fr)) (Num (sum_list qs / of_nat (length qs)))
          \<and> jle (Num (sum_list qs / of_nat (length qs))) (st_max (frame_stats fr)))"
proof -
  let ?mn = "foldl (\<lambda>m x. jmin x m) PosInf fr"
  let ?mx = "foldl (\<lambda>m x. jmax x m) NegInf fr"
  have mn: "?mn \<noteq> NaN" "?mn \<in> insert PosInf (set fr)" "\<forall>x \<in> set fr. jle ?mn x"
    using foldl_jmin [of PosInf fr] assms by simp_all
  have mx: "?mx \<noteq> NaN" "?mx \<in> insert NegInf (set fr)" "\<forall>x \<in> set fr. jle x ?mx"
    using foldl_jmax [of NegInf fr] assms by simp_all
  from assms obtain y where y: "y \<in> set fr" by (cases fr) auto
  have mn_in: "?mn \<in> set fr"
  proof (cases "?mn = PosInf")
    case True
    with mn(3) y have "y = PosInf" by (auto dest: jle_PosInf)
    with True y show ?thesis by simp
  next
    case False
    with mn(2) show ?thesis by simp
  qed
  have mx_in: "?mx \<in> set fr"
  proof (cases "?mx = NegInf")
    case True
    with mx(3) y have "y = NegInf" by (auto dest: jle_NegInf)
    with True y show ?thesis by simp
  next
    case False
    with mx(2) show ?thesis by simp
  qed
  have le: "jle ?mn ?mx"
    using mn(3) mx(3) y by (blast intro: jle_trans)
  have exact: "jle ?mn (Num (sum_list qs / of_nat (length qs)))
             \<and> jle (Num (sum_list qs / of_nat (length qs))) ?mx" if fr: "fr = map Num qs" for qs
  proof -
    from assms fr have n: "0 < length qs" by simp
    then have n': "(0::rat) < of_nat (length qs)" by simp
    from mn_in fr obtain a where a: "?mn = Num a" by auto
    from mx_in fr obtain b where b: "?mx = Num b" by auto
    have "\<forall>q \<in> set qs. a \<le> q" using mn(3) a fr by auto
    then have "a * of_nat (length qs) \<le> sum_list qs" by (rule sum_list_lower)
    then have lo: "a \<le> sum_list qs / of_nat (length qs)"
      using n' by (simp add: pos_le_divide_eq)
    have "\<forall>q \<in> set qs. q \<le> b" using mx(3) b fr by auto
    then have "sum_list qs \<le> b * of_nat (length qs)" by (rule sum_list_upper)
    then have hi: "sum_list qs / of_nat (length qs) \<le> b"
      using n' by (simp add: pos_divide_le_eq)
    from lo hi a b show ?thesis by simp
  qed
  show ?thesis
    unfolding frame_stats_foldl using mn_in mx_in mn(3) mx(3) le exact by simp
qed

text \<open>
  Three frames 11 ms apart, from a monitor made at time 0: each sample is the double
  nearest to \<open>1000 / 11\<close>, printed \<^verbatim>\<open>90.9090909090909\<close>; their sum divided by 3 is the
  next double up, printed \<^verbatim>\<open>90.90909090909092\<close>.
\<close>

lemma window_11: "frames (fps_run [Num 11, Num 22, Num 33] (fps_new (Num 0)))
    = [Num (3198579280802909 / 35184372088832), Num (3198579280802909 / 35184372088832),
       Num (3198579280802909 / 35184372088832)]"
  by code_simp

lemma stats_11: "frame_stats [Num (3198579280802909 / 35184372088832), Num (3198579280802909 / 35184372088832),
       Num (3198579280802909 / 35184372088832)] = 
   \<lparr>st_min = Num (3198579280802909 / 35184372088832), st_max = Num (3198579280802909 / 35184372088832),
    st_mean = Num (6397158561605819 / 70368744177664)\<rparr>"
  by code_simp


theorem frame_stats_min_max_witness:
  "[Num 1, Num 3] \<noteq> [] \<and> NaN \<notin> set [Num 1, Num 3]
   \<and> st_min (frame_stats [Num 1, Num 3]) \<in> set [Num 1, Num 3]
   \<and> st_max (frame_stats [Num 1, Num 3]) \<in> set [Num 1, Num 3]
   \<and> jle (st_min (frame_stats [Num 1, Num 3])) (st_max (frame_stats [Num 1, Num 3]))
   \<and> jle (st_min (frame_stats [Num 1, Num 3])) (Num 2)
   \<and> jle (Num 2) (st_max (frame_stats [Num 1, Num 3]))"
proof -
  have h: "[Num 1, Num 3] \<noteq> []" "NaN \<notin> set [Num 1, Num 3]" by simp_all
  note t = frame_stats_min_max [OF h]
  note a = t [THEN conjunct1]
  note b = t [THEN conjunct2, THEN conjunct2, THEN conjunct1]
  note c = t [THEN conjunct2, THEN conjunct2, THEN conjunct2, THEN conjunct2, THEN conjunct1]
  note d = t [THEN conjunct2, THEN conjunct2, THEN conjunct2, THEN conjunct2, THEN conjunct2,
    THEN conjunct2]
  from d [rule_format, of "[1, 3]"]
  have "jle (st_min (frame_stats [Num 1, Num 3])) (Num 2)
      \<and> jle (Num 2) (st_max (frame_stats [Num 1, Num 3]))"
    by simp
  with h a b c show ?thesis by blast
qed

text \<open>
  C10. After three frames 11 ms apart the computed mean is greater than the maximum:
  \<open>min \<le> mean \<le> max\<close> fails.
\<close>

theorem frame_stats_mean_above_max:
  "frames (fps_run [Num 11, Num 22, Num 33] (fps_new (Num 0)))
     = [Num (3198579280802909 / 35184372088832), Num (3198579280802909 / 35184372088832),
        Num (3198579280802909 / 35184372088832)]
   \<and> st_max (frame_stats (frames (fps_run [Num 11, Num 22, Num 33] (fps_new (Num 0)))))
     = Num (3198579280802909 / 35184372088832)
   \<and> st_mean (frame_stats (frames (fps_run [Num 11, Num 22, Num 33] (fps_new (Num 0)))))
     = Num (6397158561605819 / 70368744177664)
   \<and> \<not> jle (st_mean (frame_stats (frames (fps_run [Num 11, Num 22, Num 33] (fps_new (Num 0))))))
            (st_max (frame_stats (frames (fps_run [Num 11, Num 22, Num 33] (fps_new (Num 0))))))"
  by (simp only: window_11 stats_11) simp

lemma jdiv_1_not_NaN: "d \<noteq> NaN \<Longrightarrow> jdiv (Num 1) d \<noteq> NaN"
  by (cases d) simp_all

lemma jmul_1000_not_NaN: "x \<noteq> NaN \<Longrightarrow> jmul x (Num 1000) \<noteq> NaN"
  by (cases x) simp_all

lemma inst_fps_not_NaN: "inst_fps (Num a) (Num b) \<noteq> NaN"
  by (simp add: inst_fps_def jdiv_1_not_NaN jmul_1000_not_NaN)

lemma samples_not_NaN: "NaN \<notin> set (samples (Num t) (map Num ts))"
  by (induction ts arbitrary: t) (simp_all add: inst_fps_not_NaN [THEN not_sym])

text \<open>The windows the monitor reaches from finite clock readings hold no NaN.\<close>

lemma fps_run_not_NaN: "NaN \<notin> set (frames (fps_run (map Num ts) (fps_new (Num t0))))"
proof -
  have "frames (fps_run (map Num ts) (fps_new (Num t0)))
        = drop (length (map Num ts) - 100) (samples (Num t0) (map Num ts))"
    using fps_run_window [of "fps_new (Num t0)" "map Num ts"] by (simp add: fps_new_def)
  then show ?thesis
    using samples_not_NaN [of t0 ts] by (auto dest: in_set_dropD)
qed

lemma inst_fps_same: "inst_fps (Num t) (Num t) = PosInf"
  by (simp add: inst_fps_def fl_def)

text \<open>
  C6. A call of \<open>render\<close> at the clock reading of the constructor (delta zero) appends
  \<open>+Infinity\<close> to the window, and the displayed average, minimum and maximum are
  \<open>+Infinity\<close>: the sample is not dropped.
\<close>

theorem fps_render_zero_delta_not_dropped:
  "frames (fst (fps_render (Num 5) (fps_new (Num 5)))) = [PosInf]
   \<and> snd (fps_render (Num 5) (fps_new (Num 5)))
     = \<lparr>txt_latest = PosInf, txt_avg = PosInf, txt_min = PosInf, txt_max = PosInf\<rparr>"
  by code_simp



section \<open>Properties of the click mapping\<close>

lemma round_even_nonneg: "0 \<le> x \<Longrightarrow> 0 \<le> round_even x"
  by (simp add: round_even_def Let_def)

lemma fl_nonneg:
  assumes "0 \<le> q"
  shows "fl q = PosInf \<or> (\<exists>m. fl q = Num m \<and> 0 \<le> m)"
proof (cases "q = 0")
  case True
  then show ?thesis by (simp add: fl_def)
next
  case False
  with assms have q: "0 < q" by simp
  define u :: rat where "u = power_int 2 (max (binade \<bar>q\<bar>) (- 1022) - 52)"
  have u: "0 < u" unfolding u_def by (rule zero_less_power_int) simp
  have "0 \<le> \<bar>q\<bar> / u" using u by simp
  then have "0 \<le> round_even (\<bar>q\<bar> / u)" by (rule round_even_nonneg)
  then have m: "0 \<le> rat_of_int (round_even (\<bar>q\<bar> / u)) * u" using u by simp
  show ?thesis
    using q m unfolding fl_def Let_def u_def by auto
qed

lemma jnat_11 [simp]: "jnat (CELL_SIZE + 1) = Num 11"
  by (simp add: jnat_def CELL_SIZE_def)

lemma clamp_upper:
  assumes "y \<noteq> NaN"
  shows "jle (jmin (jfloor (jdiv y (Num 11))) (Num k)) (Num k)"
proof -
  have "jdiv y (Num 11) \<noteq> NaN" using assms by (cases y) simp_all
  then have "jfloor (jdiv y (Num 11)) \<noteq> NaN" by (cases "jdiv y (Num 11)") simp_all
  then show ?thesis by (intro jmin_props(4)) simp_all
qed

lemma clamp_in_grid:
  assumes "0 < n" and "jle (Num 0) y"
  shows "in_grid n (jmin (jfloor (jdiv y (Num 11))) (Num (of_int (int n - 1))))"
proof -
  have k: "(0::rat) \<le> of_int (int n - 1)" "rat_of_int (int n - 1) < of_nat n"
    using assms(1) by (simp_all add: of_nat_diff)
  have inf: "in_grid n (jmin PosInf (Num (of_int (int n - 1))))"
    using k by (simp add: in_grid_def)
  have num: "in_grid n (jmin (jfloor (Num m)) (Num (of_int (int n - 1))))" if "0 \<le> m" for m :: rat
  proof -
    have "min (rat_of_int \<lfloor>m\<rfloor>) (of_int (int n - 1)) = of_int (min \<lfloor>m\<rfloor> (int n - 1))"
      by (simp add: min_def)
    moreover have "0 \<le> min \<lfloor>m\<rfloor> (int n - 1)" using that assms(1) by simp
    moreover have "min \<lfloor>m\<rfloor> (int n - 1) < int n" by simp
    ultimately show ?thesis
      by (simp add: in_grid_def del: of_int_diff) 
  qed
  from assms(2) show ?thesis
  proof (cases y)
    case (Num a)
    with assms(2) have "0 \<le> a / 11" by simp
    from fl_nonneg [OF this] Num show ?thesis
      using inf num by auto
  next
    case PosInf
    then show ?thesis using inf by simp
  qed simp_all
qed

lemma cell_row_upper: "y \<noteq> NaN \<Longrightarrow> jle (cell_row h y) (Num (of_int (int h - 1)))"
  unfolding cell_row_def jnat_11 by (rule clamp_upper)

lemma cell_col_upper: "x \<noteq> NaN \<Longrightarrow> jle (cell_col w x) (Num (of_int (int w - 1)))"
  unfolding cell_col_def jnat_11 by (rule clamp_upper)

lemma cell_row_in_grid: "0 < h \<Longrightarrow> jle (Num 0) y \<Longrightarrow> in_grid h (cell_row h y)"
  unfolding cell_row_def jnat_11 by (rule clamp_in_grid)

lemma cell_col_in_grid: "0 < w \<Longrightarrow> jle (Num 0) x \<Longrightarrow> in_grid w (cell_col w x)"
  unfolding cell_col_def jnat_11 by (rule clamp_in_grid)

text \<open>
  C1, as the code has it. The listener clamps from above only. The cell of a click is
  \<open>cell_row\<close> and \<open>cell_col\<close> of its raster position; whenever that position is a number,
  \<open>row \<le> height - 1\<close> and \<open>col \<le> width - 1\<close>; when moreover the raster coordinate is not
  negative and the grid is not empty, the row is a valid row, an integer from 0 to
  \<open>height - 1\<close>, and the same for the column. Nothing is promised for a negative raster
  coordinate.
\<close>

theorem click_cell_clamped_above:
  assumes "canvas_pos w h boundingRect event = (canvasLeft, canvasTop)"
  shows "click_cell w h boundingRect event = (cell_row h canvasTop, cell_col w canvasLeft)
       \<and> (canvasTop \<noteq> NaN \<longrightarrow> jle (cell_row h canvasTop) (Num (of_int (int h - 1))))
       \<and> (canvasLeft \<noteq> NaN \<longrightarrow> jle (cell_col w canvasLeft) (Num (of_int (int w - 1))))
       \<and> (0 < h \<and> jle (Num 0) canvasTop \<longrightarrow> in_grid h (cell_row h canvasTop))
       \<and> (0 < w \<and> jle (Num 0) canvasLeft \<longrightarrow> in_grid w (cell_col w canvasLeft))"
proof -
  from assms
  have "click_cell w h boundingRect event = (cell_row h canvasTop, cell_col w canvasLeft)"
    by (simp add: click_cell_def)
  then show ?thesis
    using cell_row_upper cell_col_upper cell_row_in_grid cell_col_in_grid by blast
qed

text \<open>
  C9. The canvas is \<open>(CELL_SIZE + 1) * width + 1\<close> by \<open>(CELL_SIZE + 1) * height + 1\<close>
  pixels. On a grid that is not empty, every raster position \<open>(x, y)\<close> inside it,
  \<open>0 \<le> x < canvas.width\<close> and \<open>0 \<le> y < canvas.height\<close>, is mapped by the division, the
  floor and the upper clamp to a valid row and a valid column.
\<close>

theorem in_canvas_click_in_grid:
  assumes "0 < w" and "0 < h"
    and "0 \<le> x" and "x < of_nat (canvas_width w)"
    and "0 \<le> y" and "y < of_nat (canvas_height h)"
  shows "in_grid h (cell_row h (Num y)) \<and> in_grid w (cell_col w (Num x))"
  using assms by (simp add: cell_row_in_grid cell_col_in_grid)


section \<open>Properties of the page\<close>

lemma tick_loop:
  "for_upto 0 n (\<lambda>i s. emit [Engine Tick] (s\<lparr>universe := tick E (universe s)\<rparr>)) st
   = st\<lparr>universe := (tick E ^^ n) (universe st), trace := trace st @ replicate n (Engine Tick)\<rparr>"
proof -
  have "foldl (\<lambda>s i. emit [Engine Tick] (s\<lparr>universe := tick E (universe s)\<rparr>)) st [0..<n]
      = st\<lparr>universe := (tick E ^^ n) (universe st), trace := trace st @ replicate n (Engine Tick)\<rparr>"
  proof (induction n)
    case 0
    show ?case by simp
  next
    case (Suc n)
    then show ?case
      by (simp add: emit_def replicate_append_same)
  qed
  then show ?thesis by (simp only: for_upto_foldl)
qed

lemma tick_loop_unfolded:
  "for_upto 0 n (\<lambda>i s. s\<lparr>universe := tick E (universe s), trace := trace s @ [Engine Tick]\<rparr>)
     (st :: 'u page)
   = st\<lparr>universe := (tick E ^^ n) (universe st), trace := trace st @ replicate n (Engine Tick)\<rparr>"
  using tick_loop [of n E st] by (simp add: emit_def)

lemma count_list_replicate_same: "count_list (replicate n x) x = n"
  by (induction n) simp_all

lemma count_list_Canvas: "count_list (map Canvas ops) (Engine c) = 0"
  by (induction ops) simp_all

lemma added_append: "trace st' = trace st @ as \<Longrightarrow> added st st' = as"
  by (simp add: added_def)

lemma renderLoop_eq:
  "renderLoop E w h now handle st =
     st\<lparr>universe := (tick E ^^ sliderValue st) (universe st),
        fps := fst (fps_render now (fps st)),
        animationId := Some handle,
        trace := trace st @ [FpsText (snd (fps_render now (fps st)))]
          @ replicate (sliderValue st) (Engine Tick)
          @ map Canvas (drawGrid w h)
          @ [Engine Cells]
          @ map Canvas (drawCells w h (cells E ((tick E ^^ sliderValue st) (universe st))))
          @ [RequestAnimationFrame]\<rparr>"
  by (simp add: renderLoop_def Let_def split_beta tick_loop_unfolded emit_def do_drawGrid_def
      do_drawCells_def)

text \<open>
  C2. The actions of one call of \<open>renderLoop\<close> are, in this order: the text of one
  performance sample, one \<open>tick\<close> for each unit of the slider's value, the calls of
  \<open>drawGrid\<close>, the read of the cells and the calls of \<open>drawCells\<close> (on the cells after
  the ticks), and one \<open>requestAnimationFrame\<close>, whose handle is stored in
  \<open>animationId\<close>. The number of ticks among them is the slider's value, and the engine
  state is the old one advanced that many times.
\<close>

theorem renderLoop_order:
  "added st (renderLoop E w h now handle st) =
       [FpsText (snd (fps_render now (fps st)))]
     @ replicate (sliderValue st) (Engine Tick)
     @ map Canvas (drawGrid w h)
     @ [Engine Cells]
     @ map Canvas (drawCells w h (cells E ((tick E ^^ sliderValue st) (universe st))))
     @ [RequestAnimationFrame]
   \<and> count_list (added st (renderLoop E w h now handle st)) (Engine Tick) = sliderValue st
   \<and> universe (renderLoop E w h now handle st) = (tick E ^^ sliderValue st) (universe st)
   \<and> fps (renderLoop E w h now handle st) = fst (fps_render now (fps st))
   \<and> animationId (renderLoop E w h now handle st) = Some handle"
proof -
  let ?as = "[FpsText (snd (fps_render now (fps st)))]
     @ replicate (sliderValue st) (Engine Tick)
     @ map Canvas (drawGrid w h)
     @ [Engine Cells]
     @ map Canvas (drawCells w h (cells E ((tick E ^^ sliderValue st) (universe st))))
     @ [RequestAnimationFrame]"
  have "trace (renderLoop E w h now handle st) = trace st @ ?as"
    by (simp add: renderLoop_eq)
  then have a: "added st (renderLoop E w h now handle st) = ?as"
    by (rule added_append)
  have c: "count_list ?as (Engine Tick) = sliderValue st"
    by (simp add: count_list_replicate_same count_list_Canvas)
  show ?thesis
    unfolding a using c by (simp add: renderLoop_eq)
qed

lemma pause_eq:
  "pause st = st\<lparr>animationId := None,
     trace := trace st @ [ButtonText PlayGlyph, CancelAnimationFrame (animationId st)]\<rparr>"
  by (simp add: pause_def emit_def)

text \<open>
  C4, as the code has it. On a paused page \<open>pause\<close> leaves the page paused and the
  engine, the monitor and the slider as they were; it writes the play glyph again and
  calls \<open>cancelAnimationFrame\<close> with the null handle, which names no scheduled callback;
  a second \<open>pause\<close> does the same again. \<open>pause\<close> itself tests nothing: the test for a
  handle is \<open>isPaused\<close> in the button's listener, which on a paused page calls \<open>play\<close>.
\<close>

theorem pause_when_paused:
  assumes "isPaused st"
  shows "isPaused (pause st)
       \<and> universe (pause st) = universe st \<and> fps (pause st) = fps st
       \<and> sliderValue (pause st) = sliderValue st
       \<and> added st (pause st) = [ButtonText PlayGlyph, CancelAnimationFrame None]
       \<and> added (pause st) (pause (pause st)) = [ButtonText PlayGlyph, CancelAnimationFrame None]
       \<and> playPause_click E w h now handle st = play E w h now handle st"
  using assms by (simp add: pause_eq isPaused_def added_def playPause_click_def)

theorem pause_when_paused_witness:
  "isPaused (page_start log_engine 10 10 [] (Num 0))
   \<and> isPaused (pause (page_start log_engine 10 10 [] (Num 0)))
   \<and> added (page_start log_engine 10 10 [] (Num 0)) (pause (page_start log_engine 10 10 [] (Num 0)))
     = [ButtonText PlayGlyph, CancelAnimationFrame None]"
proof -
  have h: "isPaused (page_start log_engine 10 10 [] (Num 0))"
    by (simp add: page_start_def pause_eq isPaused_def)
  from pause_when_paused [OF h] h show ?thesis by blast
qed

text \<open>
  C4. On the page as it is at start-up, \<open>animationId = null\<close>, \<open>pause\<close> is not guarded:
  it calls \<open>cancelAnimationFrame\<close>, with the null handle.
\<close>

theorem pause_when_paused_calls_cancel:
  "isPaused \<lparr>universe = [] :: engine_call list, fps = fps_new (Num 0), animationId = None,
      sliderValue = 1, trace = []\<rparr>
   \<and> trace (pause \<lparr>universe = [] :: engine_call list, fps = fps_new (Num 0), animationId = None,
      sliderValue = 1, trace = []\<rparr>) = [ButtonText PlayGlyph, CancelAnimationFrame None]"
  by (simp add: pause_eq isPaused_def)

lemma canvas_click_toggle:
  assumes "\<not> ctrlKey event" "\<not> shiftKey event" "click_cell w h boundingRect event = (row, col)"
  shows "canvas_click E w h boundingRect event st =
     st\<lparr>universe := toggle_cell E row col (universe st),
        trace := trace st @ [Engine (ToggleCell row col)]
          @ map Canvas (drawGrid w h)
          @ [Engine Cells]
          @ map Canvas (drawCells w h (cells E (toggle_cell E row col (universe st))))\<rparr>"
  using assms
  by (simp add: canvas_click_def Let_def emit_def do_drawGrid_def do_drawCells_def)

lemma filter_mutation_Canvas: "filter is_mutation (map Canvas ops) = []"
  by (induction ops) simp_all

lemma row_35: "cell_row 10 (Num 35) = Num 3"
  by code_simp

lemma col_25: "cell_col 10 (Num 25) = Num 2"
  by code_simp

text \<open>
  C7. On the 10 by 10 grid (\<open>CELL_SIZE = 10\<close>), a click whose raster position is
  \<open>(25, 35)\<close>, with neither modifier key held, has \<open>col = 2\<close> and \<open>row = 3\<close>; the listener
  calls \<open>toggle_cell(3, 2)\<close>, then repaints; that call is the only call that changes the
  engine.
\<close>

theorem click_25_35_toggles_3_2:
  assumes "canvas_pos 10 10 boundingRect event = (Num 25, Num 35)"
    and "\<not> ctrlKey event" and "\<not> shiftKey event"
  shows "click_cell 10 10 boundingRect event = (Num 3, Num 2)
       \<and> universe (canvas_click E 10 10 boundingRect event st)
         = toggle_cell E (Num 3) (Num 2) (universe st)
       \<and> added st (canvas_click E 10 10 boundingRect event st)
         = [Engine (ToggleCell (Num 3) (Num 2))]
           @ map Canvas (drawGrid 10 10)
           @ [Engine Cells]
           @ map Canvas (drawCells 10 10 (cells E (toggle_cell E (Num 3) (Num 2) (universe st))))
       \<and> filter is_mutation (added st (canvas_click E 10 10 boundingRect event st))
         = [Engine (ToggleCell (Num 3) (Num 2))]"
proof -
  from assms(1) have cc: "click_cell 10 10 boundingRect event = (Num 3, Num 2)"
    by (simp add: click_cell_def row_35 col_25)
  note eq = canvas_click_toggle [OF assms(2) assms(3) cc, of E st]
  let ?as = "[Engine (ToggleCell (Num 3) (Num 2))]
           @ map Canvas (drawGrid 10 10)
           @ [Engine Cells]
           @ map Canvas (drawCells 10 10 (cells E (toggle_cell E (Num 3) (Num 2) (universe st))))"
  have "trace (canvas_click E 10 10 boundingRect event st) = trace st @ ?as"
    by (simp add: eq)
  then have a: "added st (canvas_click E 10 10 boundingRect event st) = ?as"
    by (rule added_append)
  have f: "filter is_mutation ?as = [Engine (ToggleCell (Num 3) (Num 2))]"
    by (simp add: filter_mutation_Canvas)
  show ?thesis
    unfolding a using cc f by (simp add: eq)
qed

lemma pos_58_78:
  "canvas_pos 10 10
     \<lparr>rect_left = Num 8, rect_top = Num 8, rect_width = Num 222, rect_height = Num 222\<rparr>
     \<lparr>clientX = Num 58, clientY = Num 78, ctrlKey = False, shiftKey = False\<rparr>
   = (Num 25, Num 35)"
  by code_simp

lemma universe_page_start [simp]: "universe (page_start E w h u t0) = u"
  by (simp add: page_start_def pause_eq do_drawCells_def do_drawGrid_def emit_def)

theorem click_25_35_toggles_3_2_witness:
  "canvas_pos 10 10
     \<lparr>rect_left = Num 8, rect_top = Num 8, rect_width = Num 222, rect_height = Num 222\<rparr>
     \<lparr>clientX = Num 58, clientY = Num 78, ctrlKey = False, shiftKey = False\<rparr>
   = (Num 25, Num 35)
   \<and> universe (canvas_click log_engine 10 10
       \<lparr>rect_left = Num 8, rect_top = Num 8, rect_width = Num 222, rect_height = Num 222\<rparr>
       \<lparr>clientX = Num 58, clientY = Num 78, ctrlKey = False, shiftKey = False\<rparr>
       (page_start log_engine 10 10 [] (Num 0)))
     = [ToggleCell (Num 3) (Num 2)]
   \<and> filter is_mutation (added (page_start log_engine 10 10 [] (Num 0))
       (canvas_click log_engine 10 10
         \<lparr>rect_left = Num 8, rect_top = Num 8, rect_width = Num 222, rect_height = Num 222\<rparr>
         \<lparr>clientX = Num 58, clientY = Num 78, ctrlKey = False, shiftKey = False\<rparr>
         (page_start log_engine 10 10 [] (Num 0))))
     = [Engine (ToggleCell (Num 3) (Num 2))]"
proof -
  let ?r = "\<lparr>rect_left = Num 8, rect_top = Num 8, rect_width = Num 222, rect_height = Num 222\<rparr>"
  let ?e = "\<lparr>clientX = Num 58, clientY = Num 78, ctrlKey = False, shiftKey = False\<rparr>"
  have k: "\<not> ctrlKey ?e" "\<not> shiftKey ?e" by simp_all
  note t = click_25_35_toggles_3_2 [OF pos_58_78 k, of log_engine "page_start log_engine 10 10 [] (Num 0)"]
  have "toggle_cell log_engine (Num 3) (Num 2) [] = [ToggleCell (Num 3) (Num 2)]"
    by (simp add: log_engine_def)
  with t pos_58_78 show ?thesis by simp
qed

theorem click_cell_clamped_above_witness:
  "canvas_pos 10 10
     \<lparr>rect_left = Num 8, rect_top = Num 8, rect_width = Num 222, rect_height = Num 222\<rparr>
     \<lparr>clientX = Num 58, clientY = Num 78, ctrlKey = False, shiftKey = False\<rparr>
   = (Num 25, Num 35)
   \<and> jle (cell_row 10 (Num 35)) (Num 9) \<and> jle (cell_col 10 (Num 25)) (Num 9)
   \<and> in_grid 10 (cell_row 10 (Num 35)) \<and> in_grid 10 (cell_col 10 (Num 25))"
proof -
  note t = click_cell_clamped_above [OF pos_58_78]
  have "(0::nat) < 10" "jle (Num 0) (Num 35)" "jle (Num 0) (Num 25)"
    "Num 35 \<noteq> NaN" "Num 25 \<noteq> NaN" by simp_all
  with t pos_58_78 show ?thesis by simp
qed

text \<open>
  C1. A click event at the client position \<open>(0, 0)\<close> (where a click made by
  \<^verbatim>\<open>canvas.click()\<close> is) on a 10 by 10 canvas shown unscaled at \<open>(8, 8)\<close> has the raster
  position \<open>(-8, -8)\<close>; its row and column are \<open>-1\<close>, not a cell of the grid.
\<close>

theorem click_outside_canvas_negative_cell:
  "canvas_pos 10 10
     \<lparr>rect_left = Num 8, rect_top = Num 8, rect_width = Num 111, rect_height = Num 111\<rparr>
     \<lparr>clientX = Num 0, clientY = Num 0, ctrlKey = False, shiftKey = False\<rparr>
   = (Num (- 8), Num (- 8))
   \<and> click_cell 10 10
     \<lparr>rect_left = Num 8, rect_top = Num 8, rect_width = Num 111, rect_height = Num 111\<rparr>
     \<lparr>clientX = Num 0, clientY = Num 0, ctrlKey = False, shiftKey = False\<rparr>
   = (Num (- 1), Num (- 1))
   \<and> \<not> in_grid 10 (Num (- 1))"
  by code_simp

lemma row_110: "cell_row 10 (Num 110) = Num 9"
  by code_simp

theorem in_canvas_click_in_grid_witness:
  "(0::nat) < 10 \<and> (0::rat) \<le> 110 \<and> (110::rat) < of_nat (canvas_width 10)
   \<and> (110::rat) < of_nat (canvas_height 10)
   \<and> in_grid 10 (cell_row 10 (Num 110)) \<and> in_grid 10 (cell_col 10 (Num 110))
   \<and> cell_row 10 (Num 110) = Num 9"
proof -
  have h: "(0::nat) < 10" "(0::rat) \<le> 110" "(110::rat) < of_nat (canvas_width 10)"
    "(110::rat) < of_nat (canvas_height 10)"
    by (simp_all add: canvas_width_def canvas_height_def CELL_SIZE_def)
  from in_canvas_click_in_grid [OF h(1) h(1) h(2) h(3) h(2) h(4)] h row_110
  show ?thesis by simp
qed



section \<open>What the monitor displays\<close>

lemma fps_render_text:
  "snd (fps_render now m) =
     \<lparr>txt_latest = jround (inst_fps (lastFrameTimeStamp m) now),
      txt_avg = jround (st_mean (frame_stats (frames (fst (fps_render now m))))),
      txt_min = jround (st_min (frame_stats (frames (fst (fps_render now m))))),
      txt_max = jround (st_max (frame_stats (frames (fst (fps_render now m)))))\<rparr>"
  by (simp add: fps_render_def Let_def)

lemma jmin_PosInf: "jmin PosInf y = y"
  by (cases y) simp_all

lemma nonneg_not_NaN: "jle (Num 0) x \<Longrightarrow> x \<noteq> NaN"
  by (cases x) simp_all

lemma jadd_nonneg:
  assumes "jle (Num 0) x" and "jle (Num 0) y"
  shows "jle (Num 0) (jadd x y)" and "x = PosInf \<or> y = PosInf \<Longrightarrow> jadd x y = PosInf"
proof -
  show "jle (Num 0) (jadd x y)"
  proof (cases x)
    case x: (Num a)
    show ?thesis
    proof (cases y)
      case y: (Num b)
      from assms x y have "0 \<le> a + b" by simp
      from fl_nonneg [OF this] show ?thesis using x y by auto
    qed (use assms x in simp_all)
  qed (use assms in \<open>cases y; simp\<close>)+
  show "jadd x y = PosInf" if "x = PosInf \<or> y = PosInf"
    using that assms by (cases x; cases y) simp_all
qed

lemma foldl_jadd_nonneg:
  assumes "jle (Num 0) a" and "\<forall>x \<in> set xs. jle (Num 0) x"
  shows "jle (Num 0) (foldl jadd a xs)
       \<and> (a = PosInf \<or> PosInf \<in> set xs \<longrightarrow> foldl jadd a xs = PosInf)"
  using assms
proof (induction xs arbitrary: a)
  case Nil
  then show ?case by simp
next
  case (Cons x xs)
  from Cons.prems have x: "jle (Num 0) x" and xs: "\<forall>y \<in> set xs. jle (Num 0) y" by simp_all
  note j = jadd_nonneg [OF Cons.prems(1) x]
  from Cons.IH [OF j(1) xs]
  have ih: "jle (Num 0) (foldl jadd (jadd a x) xs)"
    "jadd a x = PosInf \<or> PosInf \<in> set xs \<Longrightarrow> foldl jadd (jadd a x) xs = PosInf"
    by simp_all
  show ?case using ih j(2) by auto
qed

lemma frame_stats_with_PosInf:
  assumes "\<forall>x \<in> set fr. jle (Num 0) x" and "PosInf \<in> set fr"
  shows "st_max (frame_stats fr) = PosInf" and "st_mean (frame_stats fr) = PosInf"
proof -
  from assms(1) have nn: "NaN \<notin> set fr" by (auto dest: nonneg_not_NaN)
  from foldl_jmax [of NegInf fr] nn assms(2)
  have "jle PosInf (foldl (\<lambda>m x. jmax x m) NegInf fr)" by simp
  then have "foldl (\<lambda>m x. jmax x m) NegInf fr = PosInf" by (rule jle_PosInf)
  then show "st_max (frame_stats fr) = PosInf" by (simp add: frame_stats_foldl)
  have "jle (Num 0) (Num 0)" by simp
  from foldl_jadd_nonneg [OF this assms(1)] assms(2)
  have "foldl jadd (Num 0) fr = PosInf" by simp
  then show "st_mean (frame_stats fr) = PosInf"
    by (simp add: frame_stats_foldl jnat_def)
qed

lemma st_min_snoc_PosInf:
  "st_min (frame_stats (ys @ [PosInf])) = st_min (frame_stats ys)"
  by (simp add: frame_stats_foldl jmin_PosInf)

lemma set_frames_fps_render:
  "set (frames (fst (fps_render now m)))
     \<subseteq> insert (inst_fps (lastFrameTimeStamp m) now) (set (frames m))"
proof (cases "100 \<le> length (frames m)")
  case True
  then have "frames (fst (fps_render now m)) = tl (frames m @ [inst_fps (lastFrameTimeStamp m) now])"
    by (simp add: frames_fps_render)
  moreover have "set (tl (frames m @ [inst_fps (lastFrameTimeStamp m) now]))
      \<subseteq> set (frames m @ [inst_fps (lastFrameTimeStamp m) now])"
    by (rule list.set_sel(2) [THEN subsetI]) simp
  ultimately show ?thesis by auto
next
  case False
  then show ?thesis by (auto simp: frames_fps_render)
qed

text \<open>
  C6, as the code has it. \<open>render\<close> has no guard on the delta. Whatever the clock
  readings, the value \<open>1 / delta * 1000\<close> is appended as the newest sample of the window
  (the oldest one leaving a window of 100), and the four numbers displayed are that value
  and the mean, the minimum and the maximum of the window with that sample in it, each
  rounded. When the reading equals the last one (delta zero) the sample is \<open>+Infinity\<close>:
  it is the latest value displayed; the minimum displayed is that of the other samples
  of the window (\<open>+Infinity\<close> when there is none); and when the earlier samples are not
  negative, the maximum and the average displayed are \<open>+Infinity\<close>.
\<close>

theorem fps_render_appends_every_sample:
  "frames (fst (fps_render now m))
     = (if 100 \<le> length (frames m) then tl (frames m @ [inst_fps (lastFrameTimeStamp m) now])
        else frames m @ [inst_fps (lastFrameTimeStamp m) now])
   \<and> frames (fst (fps_render now m)) \<noteq> []
   \<and> last (frames (fst (fps_render now m))) = inst_fps (lastFrameTimeStamp m) now
   \<and> snd (fps_render now m) =
       \<lparr>txt_latest = jround (inst_fps (lastFrameTimeStamp m) now),
        txt_avg = jround (st_mean (frame_stats (frames (fst (fps_render now m))))),
        txt_min = jround (st_min (frame_stats (frames (fst (fps_render now m))))),
        txt_max = jround (st_max (frame_stats (frames (fst (fps_render now m)))))\<rparr>
   \<and> (\<forall>t. lastFrameTimeStamp m = Num t \<and> now = Num t \<longrightarrow>
         last (frames (fst (fps_render now m))) = PosInf
       \<and> txt_latest (snd (fps_render now m)) = PosInf
       \<and> txt_min (snd (fps_render now m))
           = jround (st_min (frame_stats (butlast (frames (fst (fps_render now m))))))
       \<and> ((\<forall>y \<in> set (frames m). jle (Num 0) y) \<longrightarrow>
             txt_max (snd (fps_render now m)) = PosInf
           \<and> txt_avg (snd (fps_render now m)) = PosInf))"
proof -
  let ?x = "inst_fps (lastFrameTimeStamp m) now"
  let ?fr = "frames (fst (fps_render now m))"
  have ne: "?fr \<noteq> []"
    by (cases "frames m") (simp_all add: frames_fps_render)
  have la: "last ?fr = ?x"
    by (cases "frames m") (simp_all add: frames_fps_render)
  note tx = fps_render_text [of now m]
  have zero: "last ?fr = PosInf \<and> txt_latest (snd (fps_render now m)) = PosInf
       \<and> txt_min (snd (fps_render now m)) = jround (st_min (frame_stats (butlast ?fr)))
       \<and> ((\<forall>y \<in> set (frames m). jle (Num 0) y) \<longrightarrow>
             txt_max (snd (fps_render now m)) = PosInf
           \<and> txt_avg (snd (fps_render now m)) = PosInf)"
    if t: "lastFrameTimeStamp m = Num t \<and> now = Num t" for t
  proof -
    from t have x: "?x = PosInf" by (simp add: inst_fps_same)
    with la have l: "last ?fr = PosInf" by simp
    from ne l have sn: "?fr = butlast ?fr @ [PosInf]"
      by (metis append_butlast_last_id)
    have mn: "st_min (frame_stats ?fr) = st_min (frame_stats (butlast ?fr))"
      by (subst sn) (rule st_min_snoc_PosInf)
    have inf: "PosInf \<in> set ?fr" using ne l by (metis last_in_set)
    have hi: "st_max (frame_stats ?fr) = PosInf \<and> st_mean (frame_stats ?fr) = PosInf"
      if nn: "\<forall>y \<in> set (frames m). jle (Num 0) y"
    proof -
      have "\<forall>y \<in> set ?fr. jle (Num 0) y"
        using set_frames_fps_render [of now m] nn x by auto
      from frame_stats_with_PosInf [OF this inf] show ?thesis by simp
    qed
    have t1: "txt_latest (snd (fps_render now m)) = PosInf"
      by (subst tx) (simp add: x)
    have t2: "txt_min (snd (fps_render now m)) = jround (st_min (frame_stats (butlast ?fr)))"
      by (subst tx) (simp add: mn)
    have t3: "txt_max (snd (fps_render now m)) = PosInf \<and> txt_avg (snd (fps_render now m)) = PosInf"
      if "\<forall>y \<in> set (frames m). jle (Num 0) y"
      using hi [OF that] by (subst tx, subst tx) simp
    from l t1 t2 t3 show ?thesis by blast
  qed
  have fr: "?fr = (if 100 \<le> length (frames m) then tl (frames m @ [?x]) else frames m @ [?x])"
    by (rule frames_fps_render)
  from fr ne la tx zero show ?thesis by blast
qed

text \<open>
  One frame 16 ms after the constructor gives the sample \<open>62.5\<close>; a second call at the
  same clock reading adds \<open>+Infinity\<close> to it.
\<close>

lemma one_frame_16:
  "fst (fps_render (Num 16) (fps_new (Num 0)))
     = \<lparr>frames = [Num (125 / 2)], lastFrameTimeStamp = Num 16\<rparr>"
  by code_simp

lemma min_one_frame_16: "jround (st_min (frame_stats [Num (125 / 2)])) = Num 63"
  by code_simp

theorem fps_render_appends_every_sample_witness:
  "lastFrameTimeStamp (fst (fps_render (Num 16) (fps_new (Num 0)))) = Num 16
   \<and> frames (fst (fps_render (Num 16) (fst (fps_render (Num 16) (fps_new (Num 0))))))
       = [Num (125 / 2), PosInf]
   \<and> snd (fps_render (Num 16) (fst (fps_render (Num 16) (fps_new (Num 0)))))
       = \<lparr>txt_latest = PosInf, txt_avg = PosInf, txt_min = Num 63, txt_max = PosInf\<rparr>"
proof -
  let ?m = "fst (fps_render (Num 16) (fps_new (Num 0)))"
  note t = fps_render_appends_every_sample [of "Num 16" ?m]
  have h: "lastFrameTimeStamp ?m = Num 16 \<and> Num 16 = Num 16" by simp
  have nn: "\<forall>y \<in> set (frames ?m). jle (Num 0) y" by (simp add: one_frame_16)
  have x: "inst_fps (lastFrameTimeStamp ?m) (Num 16) = PosInf" by (simp add: inst_fps_same)
  from t have fr: "frames (fst (fps_render (Num 16) ?m))
      = (if 100 \<le> length (frames ?m) then tl (frames ?m @ [inst_fps (lastFrameTimeStamp ?m) (Num 16)])
         else frames ?m @ [inst_fps (lastFrameTimeStamp ?m) (Num 16)])" by (rule conjunct1)
  then have fr': "frames (fst (fps_render (Num 16) ?m)) = [Num (125 / 2), PosInf]"
    unfolding x by (simp add: one_frame_16)
  from t h have z: "txt_latest (snd (fps_render (Num 16) ?m)) = PosInf"
    "txt_min (snd (fps_render (Num 16) ?m))
       = jround (st_min (frame_stats (butlast (frames (fst (fps_render (Num 16) ?m))))))"
    "(\<forall>y \<in> set (frames ?m). jle (Num 0) y) \<longrightarrow>
       txt_max (snd (fps_render (Num 16) ?m)) = PosInf
     \<and> txt_avg (snd (fps_render (Num 16) ?m)) = PosInf"
    by blast+
  from z(2) have mn: "txt_min (snd (fps_render (Num 16) ?m)) = Num 63"
    unfolding fr' by (simp add: min_one_frame_16)
  from z(3) nn have mx: "txt_max (snd (fps_render (Num 16) ?m)) = PosInf"
    "txt_avg (snd (fps_render (Num 16) ?m)) = PosInf" by blast+
  have "snd (fps_render (Num 16) ?m)
      = \<lparr>txt_latest = PosInf, txt_avg = PosInf, txt_min = Num 63, txt_max = PosInf\<rparr>"
    using z(1) mn mx by (cases "snd (fps_render (Num 16) ?m)") simp
  with fr' show ?thesis by simp
qed


end
